theory Spec2Isabelle
  imports Main
begin

section \<open>Tokens\<close>

text \<open>
  The interpreter of \<^verbatim>\<open>cppinterpreter.cpp\<close> has three stages: a lexer from the program
  text to tokens, a parser from tokens to statements, and an executor of the statements
  over a variable environment and the three standard streams.
  \<^verbatim>\<open>enum class TokenType\<close> and \<^verbatim>\<open>struct Token\<close>, in the order of the declaration;
  the field \<^verbatim>\<open>value\<close> of a token is written \<open>value'\<close>.
\<close>

datatype TokenType =
  OUT | IN | GREATER_THAN | LESS_THAN | STRING_LITERAL | VAR_NAME | STOP
  | END_STATEMENT | INT_KEYWORD | UNKNOWN

record Token =
  type :: TokenType
  value' :: string

text \<open>
  What the program throws. Both the lexer and the parser throw
  \<^verbatim>\<open>std::runtime_error\<close> with a message; \<^verbatim>\<open>std::stoi\<close> throws
  \<^verbatim>\<open>std::invalid_argument\<close> or \<^verbatim>\<open>std::out_of_range\<close>.
\<close>

datatype error = runtime_error string | invalid_argument | out_of_range

section \<open>Characters\<close>

text \<open>
  The program never calls \<^verbatim>\<open>setlocale\<close>, so \<^verbatim>\<open>isspace\<close>, \<^verbatim>\<open>isalpha\<close>,
  \<^verbatim>\<open>isalnum\<close> and (inside \<^verbatim>\<open>strtol\<close>) the digit test are those of the "C" locale:
  space and the control characters 9 to 13; the 52 ASCII letters; letters and the ten
  digits. A \<^typ>\<open>char\<close> is one byte, as in C++; bytes above 127 are in no class.
\<close>

definition isspace :: "char \<Rightarrow> bool" where
  "isspace c = (let n = (of_char c :: nat) in n = 32 \<or> (9 \<le> n \<and> n \<le> 13))"

definition isalpha :: "char \<Rightarrow> bool" where
  "isalpha c = (let n = (of_char c :: nat) in (65 \<le> n \<and> n \<le> 90) \<or> (97 \<le> n \<and> n \<le> 122))"

definition isdigit :: "char \<Rightarrow> bool" where
  "isdigit c = (let n = (of_char c :: nat) in 48 \<le> n \<and> n \<le> 57)"

definition isalnum :: "char \<Rightarrow> bool" where
  "isalnum c = (isalpha c \<or> isdigit c)"

section \<open>Lexer\<close>

text \<open>
  \<^verbatim>\<open>class Lexer\<close> holds the program text and a cursor. \<open>Lexer_new\<close> is its
  constructor. \<open>substr s p n\<close> is \<^verbatim>\<open>s.substr(p, n)\<close>: at most \<open>n\<close> characters from
  position \<open>p\<close>. The C++ function throws when \<open>p\<close> is beyond the length of \<open>s\<close>;
  \<open>next_token\<close> calls it with the cursor after the test \<^verbatim>\<open>pos >= input.length()\<close>,
  and with \<open>start\<close>, which is that cursor or one more, so never beyond the length.
\<close>

record Lexer =
  input :: string
  pos :: nat

definition Lexer_new :: "string \<Rightarrow> Lexer" where
  "Lexer_new s = \<lparr>input = s, pos = 0\<rparr>"

definition substr :: "string \<Rightarrow> nat \<Rightarrow> nat \<Rightarrow> string" where
  "substr s p n = take n (drop p s)"

text \<open>
  The lexer has three loops of one shape,
  \<^verbatim>\<open>while (pos < input.length() && P(input[pos])) pos++\<close>:
  in \<^verbatim>\<open>skip_whitespace\<close> with \<open>P = isspace\<close>, in the string-literal rule with
  "is not a double quote", and in the identifier rule with \<open>P = isalnum\<close>.
\<close>

function scan_while :: "(char \<Rightarrow> bool) \<Rightarrow> Lexer \<Rightarrow> Lexer" where
  "scan_while P L =
     (if pos L < length (input L) \<and> P (input L ! pos L)
      then scan_while P (L\<lparr>pos := pos L + 1\<rparr>)
      else L)"
  by pat_completeness auto
termination
  by (relation "measure (\<lambda>(P, L). length (input L) - pos L)") auto

declare scan_while.simps [simp del]

definition skip_whitespace :: "Lexer \<Rightarrow> Lexer" where
  "skip_whitespace L = scan_while isspace L"

text \<open>
  \<^verbatim>\<open>Lexer::next_token\<close>: the token at the cursor and the lexer after it, the rules in
  the order of the source. The double quote is \<open>CHR 0x22\<close>.
\<close>

definition next_token :: "Lexer \<Rightarrow> Token \<times> Lexer" where
  "next_token L0 =
     (let L = skip_whitespace L0 in
      if pos L \<ge> length (input L) then
        (\<lparr>type = END_STATEMENT, value' = ''''\<rparr>, L)
      else if substr (input L) (pos L) 3 = ''out'' then
        (\<lparr>type = OUT, value' = ''out''\<rparr>, L\<lparr>pos := pos L + 3\<rparr>)
      else if substr (input L) (pos L) 2 = ''>>'' then
        (\<lparr>type = GREATER_THAN, value' = ''>>''\<rparr>, L\<lparr>pos := pos L + 2\<rparr>)
      else if substr (input L) (pos L) 2 = ''in'' then
        (\<lparr>type = IN, value' = ''in''\<rparr>, L\<lparr>pos := pos L + 2\<rparr>)
      else if substr (input L) (pos L) 2 = ''<<'' then
        (\<lparr>type = LESS_THAN, value' = ''<<''\<rparr>, L\<lparr>pos := pos L + 2\<rparr>)
      else if substr (input L) (pos L) 4 = ''stop'' then
        (\<lparr>type = STOP, value' = ''stop''\<rparr>, L\<lparr>pos := pos L + 4\<rparr>)
      else if substr (input L) (pos L) 3 = ''int'' then
        (\<lparr>type = INT_KEYWORD, value' = ''int''\<rparr>, L\<lparr>pos := pos L + 3\<rparr>)
      else if input L ! pos L = CHR 0x22 then
        (let start = pos L + 1;
             L1 = scan_while (\<lambda>c. c \<noteq> CHR 0x22) (L\<lparr>pos := start\<rparr>)
         in (\<lparr>type = STRING_LITERAL, value' = substr (input L1) start (pos L1 - start)\<rparr>,
             L1\<lparr>pos := pos L1 + 1\<rparr>))
      else if isalpha (input L ! pos L) then
        (let start = pos L;
             L1 = scan_while isalnum L
         in (\<lparr>type = VAR_NAME, value' = substr (input L1) start (pos L1 - start)\<rparr>, L1))
      else if input L ! pos L = CHR '';'' then
        (\<lparr>type = END_STATEMENT, value' = '';''\<rparr>, L\<lparr>pos := pos L + 1\<rparr>)
      else
        (\<lparr>type = UNKNOWN, value' = ''''\<rparr>, L\<lparr>pos := pos L + 1\<rparr>))"

text \<open>
  \<^verbatim>\<open>Lexer::tokenize\<close>: the loop \<^verbatim>\<open>while (pos < input.length())\<close>, with the vector
  of tokens as accumulator. The loop is a partial function into \<open>option\<close>: \<open>None\<close>
  would be a loop that never ends, \<open>Some (Inl e)\<close> is the exception \<open>e\<close> thrown,
  \<open>Some (Inr ts)\<close> the vector returned.
\<close>

partial_function (option) tokenize_loop :: "Lexer \<Rightarrow> Token list \<Rightarrow> (error + Token list) option" where
  "tokenize_loop L tokens =
     (if pos L < length (input L) then
        (case next_token L of (token, L') \<Rightarrow>
           if type token \<noteq> UNKNOWN then tokenize_loop L' (tokens @ [token])
           else Some (Inl (runtime_error ''Unknown token encountered'')))
      else Some (Inr tokens))"

declare tokenize_loop.simps [code]

definition tokenize :: "string \<Rightarrow> (error + Token list) option" where
  "tokenize s = tokenize_loop (Lexer_new s) []"

section \<open>Parser\<close>

text \<open>
  \<^verbatim>\<open>class Statement\<close> has two subclasses; a statement is a value of a datatype with one
  constructor for each, holding the subclass's field. \<^verbatim>\<open>class Parser\<close> holds the tokens
  and a cursor.
\<close>

datatype Statement = OutStatement "string list" | InStatement string

record Parser =
  tokens :: "Token list"
  current_index :: nat

definition Parser_new :: "Token list \<Rightarrow> Parser" where
  "Parser_new ts = \<lparr>tokens = ts, current_index = 0\<rparr>"

text \<open>
  The loop of \<^verbatim>\<open>Parser::parse_out_statement\<close>. Its second \<^verbatim>\<open>if\<close> repeats the loop
  condition without \<open>GREATER_THAN\<close>, so it holds whenever the first one does not.
\<close>

function parse_out_loop :: "Parser \<Rightarrow> string list \<Rightarrow> Parser \<times> string list" where
  "parse_out_loop P output_targets =
     (if current_index P < length (tokens P) \<and>
         (type (tokens P ! current_index P) = GREATER_THAN \<or>
          type (tokens P ! current_index P) = STRING_LITERAL \<or>
          type (tokens P ! current_index P) = VAR_NAME)
      then
        if type (tokens P ! current_index P) = GREATER_THAN
        then parse_out_loop (P\<lparr>current_index := current_index P + 1\<rparr>) output_targets
        else parse_out_loop (P\<lparr>current_index := current_index P + 1\<rparr>)
               (output_targets @ [value' (tokens P ! current_index P)])
      else (P, output_targets))"
  by pat_completeness auto
termination
  by (relation "measure (\<lambda>(P, ts). length (tokens P) - current_index P)") auto

declare parse_out_loop.simps [simp del]

definition parse_out_statement :: "Parser \<Rightarrow> Statement \<times> Parser" where
  "parse_out_statement P0 =
     (let P1 = P0\<lparr>current_index := current_index P0 + 1\<rparr>;
          (P2, output_targets) = parse_out_loop P1 [];
          P3 = (if current_index P2 < length (tokens P2) \<and>
                   type (tokens P2 ! current_index P2) = STOP
                then P2\<lparr>current_index := current_index P2 + 1\<rparr> else P2)
      in (OutStatement output_targets, P3))"

definition parse_in_statement :: "Parser \<Rightarrow> error + Statement \<times> Parser" where
  "parse_in_statement P0 =
     (let P1 = P0\<lparr>current_index := current_index P0 + 1\<rparr> in
      if current_index P1 < length (tokens P1) \<and>
         type (tokens P1 ! current_index P1) = LESS_THAN
      then
        (let P2 = P1\<lparr>current_index := current_index P1 + 1\<rparr> in
         if current_index P2 < length (tokens P2) \<and>
            type (tokens P2 ! current_index P2) = VAR_NAME
         then Inr (InStatement (value' (tokens P2 ! current_index P2)),
                   P2\<lparr>current_index := current_index P2 + 1\<rparr>)
         else Inl (runtime_error ''Invalid 'in' statement''))
      else Inl (runtime_error ''Invalid 'in' statement''))"

lemma parse_out_loop_tokens: "tokens (fst (parse_out_loop P ts)) = tokens P"
  by (induction P ts rule: parse_out_loop.induct) (subst parse_out_loop.simps, simp)

lemma parse_out_loop_index: "current_index P \<le> current_index (fst (parse_out_loop P ts))"
proof (induction P ts rule: parse_out_loop.induct)
  case (1 P ts)
  show ?case
    using "1.IH" by (subst parse_out_loop.simps) (auto simp: Let_def)
qed

lemma parse_out_statement_tokens: "tokens (snd (parse_out_statement P)) = tokens P"
  using parse_out_loop_tokens [of "P\<lparr>current_index := current_index P + 1\<rparr>" "[]"]
  by (auto simp: parse_out_statement_def Let_def split: prod.splits)

lemma parse_out_statement_index:
  "current_index P < current_index (snd (parse_out_statement P))"
  using parse_out_loop_index [of "P\<lparr>current_index := current_index P + 1\<rparr>" "[]"]
  by (auto simp: parse_out_statement_def Let_def split: prod.splits)

lemma parse_in_statement_Inr:
  "parse_in_statement P = Inr (s, P') \<Longrightarrow>
     tokens P' = tokens P \<and> current_index P' = current_index P + 3"
  by (auto simp: parse_in_statement_def Let_def split: if_splits)

lemma parse_out_statement_measure:
  assumes "parse_out_statement P = (s, P')" and "current_index P < length (tokens P)"
  shows "length (tokens P') - current_index P' < length (tokens P) - current_index P"
  using assms parse_out_statement_tokens [of P] parse_out_statement_index [of P] by auto

lemma parse_in_statement_measure:
  assumes "parse_in_statement P = Inr (s, P')" and "current_index P < length (tokens P)"
  shows "length (tokens P') - current_index P' < length (tokens P) - current_index P"
  using assms parse_in_statement_Inr [of P s P'] by auto

text \<open>
  \<^verbatim>\<open>Parser::parse\<close>: the loop \<^verbatim>\<open>while (current_index < tokens.size())\<close>, with the
  vector of statements as accumulator. The exception of \<open>parse_in_statement\<close> leaves
  the loop.
\<close>

function parse_loop :: "Parser \<Rightarrow> Statement list \<Rightarrow> error + Statement list" where
  "parse_loop P statements =
     (if current_index P < length (tokens P) then
        if type (tokens P ! current_index P) = OUT then
          (case parse_out_statement P of (s, P') \<Rightarrow> parse_loop P' (statements @ [s]))
        else if type (tokens P ! current_index P) = IN then
          (case parse_in_statement P of
             Inl e \<Rightarrow> Inl e
           | Inr (s, P') \<Rightarrow> parse_loop P' (statements @ [s]))
        else parse_loop (P\<lparr>current_index := current_index P + 1\<rparr>) statements
      else Inr statements)"
  by pat_completeness auto
termination
proof (relation "measure (\<lambda>(P, ss). length (tokens P) - current_index P)", goal_cases)
  case 1
  show ?case by simp
next
  case 2
  then show ?case
    by (auto intro: parse_out_statement_measure [OF sym])
next
  case 3
  then show ?case
    by (auto intro: parse_in_statement_measure [OF sym])
next
  case 4
  then show ?case by auto
qed

declare parse_loop.simps [simp del]

definition parse :: "Token list \<Rightarrow> error + Statement list" where
  "parse ts = parse_loop (Parser_new ts) []"

section \<open>Executor\<close>

text \<open>
  What the statements act on: the map \<^verbatim>\<open>variables\<close> of \<^verbatim>\<open>Interpreter::execute\<close> and
  the three standard streams. \<open>stdin\<close> is the list of the lines still to be read.
  Every write of the program is one string followed by \<^verbatim>\<open>std::endl\<close>; \<open>stdout\<close> and
  \<open>stderr\<close> are the lists of the strings written so far, one element for each write.
\<close>

record World =
  variables :: "string \<rightharpoonup> string"
  stdin :: "string list"
  stdout :: "string list"
  stderr :: "string list"

text \<open>
  \<^verbatim>\<open>OutStatement::execute\<close>, a loop over the targets: \<^verbatim>\<open>variables.find(target)\<close> finds
  the target or not, and \<^verbatim>\<open>variables[target]\<close> is read only when it was found.
\<close>

fun OutStatement_execute :: "string list \<Rightarrow> World \<Rightarrow> World" where
  "OutStatement_execute [] w = w"
| "OutStatement_execute (target # output_targets) w =
     OutStatement_execute output_targets
       (w\<lparr>stdout := stdout w @
             [case variables w target of Some v \<Rightarrow> v | None \<Rightarrow> target]\<rparr>)"

text \<open>
  \<^verbatim>\<open>std::getline(std::cin, input_str)\<close> on a string that was just constructed: the next
  line, or the empty string when the input is at its end.
\<close>

definition getline :: "World \<Rightarrow> string \<times> World" where
  "getline w = (case stdin w of [] \<Rightarrow> ('''', w) | l # ls \<Rightarrow> (l, w\<lparr>stdin := ls\<rparr>))"

text \<open>
  \<^verbatim>\<open>std::stoi(str)\<close>, which is \<^verbatim>\<open>strtol\<close> in base 10 on the characters of \<open>str\<close>:
  white space is skipped, then an optional sign, then the longest run of digits is
  read and what follows it is ignored. No digit there is \<^verbatim>\<open>std::invalid_argument\<close>;
  a number outside the range of \<^verbatim>\<open>int\<close> (32 bits) is \<^verbatim>\<open>std::out_of_range\<close>.
\<close>

definition decimal :: "string \<Rightarrow> nat" where
  "decimal ds = foldl (\<lambda>a c. 10 * a + (of_char c - 48)) 0 ds"

definition stoi :: "string \<Rightarrow> error + int" where
  "stoi str =
     (let s1 = dropWhile isspace str;
          neg = (s1 \<noteq> [] \<and> hd s1 = CHR ''-'');
          s2 = (if s1 \<noteq> [] \<and> (hd s1 = CHR ''-'' \<or> hd s1 = CHR ''+'') then tl s1 else s1);
          ds = takeWhile isdigit s2
      in if ds = [] then Inl invalid_argument
         else
           (let n = (if neg then - int (decimal ds) else int (decimal ds)) in
            if n < - 2147483648 \<or> 2147483647 < n then Inl out_of_range else Inr n))"

text \<open>\<^verbatim>\<open>std::to_string(int)\<close>: the decimal digits, after a minus sign below zero.\<close>

function digits :: "nat \<Rightarrow> string" where
  "digits n =
     (if n < 10 then [''0123456789'' ! n]
      else digits (n div 10) @ [''0123456789'' ! (n mod 10)])"
  by pat_completeness auto
termination
  by (relation "measure (\<lambda>n. n)") auto

declare digits.simps [simp del]

definition to_string :: "int \<Rightarrow> string" where
  "to_string v = (if v < 0 then CHR ''-'' # digits (nat (- v)) else digits (nat v))"

text \<open>
  \<^verbatim>\<open>InStatement::execute\<close>. The \<^verbatim>\<open>try\<close> block has one handler, for
  \<^verbatim>\<open>std::invalid_argument\<close>; any other exception leaves the function.
\<close>

definition InStatement_execute :: "string \<Rightarrow> World \<Rightarrow> error + World" where
  "InStatement_execute var_name w0 =
     (case getline w0 of (input_str, w) \<Rightarrow>
        (case stoi input_str of
           Inr v \<Rightarrow> Inr (w\<lparr>variables := (variables w)(var_name \<mapsto> to_string v)\<rparr>)
         | Inl invalid_argument \<Rightarrow>
             Inr (w\<lparr>stderr := stderr w @ [''Invalid input. Please enter an integer.''],
                    variables := (variables w)(var_name \<mapsto> ''0'')\<rparr>)
         | Inl e \<Rightarrow> Inl e))"

text \<open>The virtual call \<^verbatim>\<open>stmt->execute(variables)\<close>.\<close>

fun Statement_execute :: "Statement \<Rightarrow> World \<Rightarrow> error + World" where
  "Statement_execute (OutStatement output_targets) w = Inr (OutStatement_execute output_targets w)"
| "Statement_execute (InStatement var_name) w = InStatement_execute var_name w"

text \<open>
  \<^verbatim>\<open>Interpreter::execute\<close>: a fresh, empty map, then the statements in order; an
  exception of a statement leaves the loop and the function.
\<close>

fun execute_loop :: "Statement list \<Rightarrow> World \<Rightarrow> error + World" where
  "execute_loop [] w = Inr w"
| "execute_loop (stmt # statements) w =
     (case Statement_execute stmt w of
        Inl e \<Rightarrow> Inl e
      | Inr w' \<Rightarrow> execute_loop statements w')"

definition Interpreter_execute :: "Statement list \<Rightarrow> World \<Rightarrow> error + World" where
  "Interpreter_execute statements w = execute_loop statements (w\<lparr>variables := Map.empty\<rparr>)"

section \<open>The executor's statements\<close>

lemma OutStatement_execute_eq:
  "OutStatement_execute targets w =
     w\<lparr>stdout := stdout w @ map (\<lambda>t. case variables w t of Some v \<Rightarrow> v | None \<Rightarrow> t) targets\<rparr>"
  by (induction targets arbitrary: w) simp_all

text \<open>
  Claim C6. Executing an \<open>OutStatement\<close> appends to standard output one line for each
  target, in the order of the targets: the value the environment holds for the target
  when the target is one of its keys, and the target itself otherwise. A target that is
  the name of a defined variable is therefore always written as the variable's value.
\<close>

theorem OutStatement_execute_lines:
  "stdout (OutStatement_execute targets w) =
     stdout w @ map (\<lambda>target. case variables w target of Some v \<Rightarrow> v | None \<Rightarrow> target) targets"
  by (simp add: OutStatement_execute_eq)

theorem OutStatement_execute_lines_witness:
  "stdout (OutStatement_execute [''a'', ''b'', ''a'']
      \<lparr>variables = [''a'' \<mapsto> ''7''], stdin = [], stdout = [''x''], stderr = []\<rparr>)
   = [''x'', ''7'', ''b'', ''7'']"
  using OutStatement_execute_lines [of "[''a'', ''b'', ''a'']"
      "\<lparr>variables = [''a'' \<mapsto> ''7''], stdin = [], stdout = [''x''], stderr = []\<rparr>"]
  by simp

text \<open>
  Claim C9. Executing an \<open>OutStatement\<close> leaves the environment as it was, whatever
  the environment and the input are; a statement whose execution changes the environment
  is an \<open>InStatement\<close>.
\<close>

theorem OutStatement_execute_frame:
  "variables (OutStatement_execute targets w) = variables w \<and>
   (\<forall>stmt w'. Statement_execute stmt w = Inr w' \<and> variables w' \<noteq> variables w
      \<longrightarrow> (\<exists>var_name. stmt = InStatement var_name))"
proof -
  have "variables w' = variables w" if "Statement_execute (OutStatement ts) w = Inr w'" for ts w'
    using that by (auto simp: OutStatement_execute_eq)
  then have "\<exists>var_name. stmt = InStatement var_name"
    if "Statement_execute stmt w = Inr w'" "variables w' \<noteq> variables w" for stmt w'
    using that by (cases stmt) auto
  then show ?thesis by (auto simp: OutStatement_execute_eq)
qed

theorem OutStatement_execute_frame_witness:
  "variables (OutStatement_execute [''a'', ''b'']
      \<lparr>variables = [''a'' \<mapsto> ''7''], stdin = [''5''], stdout = [], stderr = []\<rparr>)
     = [''a'' \<mapsto> ''7''] \<and>
   Statement_execute (InStatement ''a'')
      \<lparr>variables = [''a'' \<mapsto> ''7''], stdin = [''5''], stdout = [], stderr = []\<rparr>
     = Inr \<lparr>variables = [''a'' \<mapsto> ''5''], stdin = [], stdout = [], stderr = []\<rparr> \<and>
   variables \<lparr>variables = [''a'' \<mapsto> ''5''], stdin = [], stdout = [], stderr = []\<rparr>
     \<noteq> variables \<lparr>variables = [''a'' \<mapsto> ''7''], stdin = [''5''], stdout = [], stderr = []\<rparr> \<and>
   (\<exists>var_name. InStatement ''a'' = InStatement var_name)"
proof -
  let ?w = "\<lparr>variables = [''a'' \<mapsto> ''7''], stdin = [''5''], stdout = [], stderr = []\<rparr>"
  let ?w' = "\<lparr>variables = [''a'' \<mapsto> ''5''], stdin = [], stdout = [], stderr = []\<rparr>"
  have run: "Statement_execute (InStatement ''a'') ?w = Inr ?w'"
    by (simp add: InStatement_execute_def getline_def stoi_def decimal_def isspace_def
        isdigit_def to_string_def digits.simps)
  have changed: "variables ?w' \<noteq> variables ?w"
    by (auto dest: map_upd_eqD1)
  show ?thesis
    using OutStatement_execute_frame [of "[''a'', ''b'']" ?w] run changed by simp
qed

text \<open>
  Claim C5, as the code has it. \<^verbatim>\<open>std::stoi\<close> reads the longest number at the start of
  the line and ignores what follows it, so a line such as \<open>12abc\<close>, which is not an
  integer, is read as 12 with no diagnostic. The diagnostic is for the lines with no
  number to read: for every \<open>InStatement\<close> and every line of standard input that, after
  its leading white space and one optional sign, does not go on with a decimal digit,
  executing the statement writes the one line \<open>Invalid input. Please enter an integer.\<close>
  to standard error, stores the text \<open>0\<close> under the statement's variable name, and
  execution goes on with the next statement. With the line \<open>abc\<close>, the variable \<open>a\<close>
  is bound to \<open>0\<close> and a following \<open>out >> a\<close> prints \<open>0\<close> (the witness).
\<close>

theorem InStatement_execute_no_number:
  assumes "stdin w = line # ls"
    and "let s = dropWhile isspace line;
             d = (if s \<noteq> [] \<and> (hd s = CHR ''-'' \<or> hd s = CHR ''+'') then tl s else s)
         in d = [] \<or> \<not> isdigit (hd d)"
  shows "InStatement_execute var_name w =
           Inr (w\<lparr>stdin := ls,
                  stderr := stderr w @ [''Invalid input. Please enter an integer.''],
                  variables := (variables w)(var_name \<mapsto> ''0'')\<rparr>) \<and>
         execute_loop (InStatement var_name # statements) w =
           execute_loop statements
             (w\<lparr>stdin := ls,
                stderr := stderr w @ [''Invalid input. Please enter an integer.''],
                variables := (variables w)(var_name \<mapsto> ''0'')\<rparr>)"
proof -
  have no_digits: "takeWhile P d = []" if "d = [] \<or> \<not> P (hd d)" for P and d :: string
    using that by (cases d) auto
  have "stoi line = Inl invalid_argument"
    using assms(2) by (auto simp: stoi_def Let_def no_digits)
  then have "InStatement_execute var_name w =
           Inr (w\<lparr>stdin := ls,
                  stderr := stderr w @ [''Invalid input. Please enter an integer.''],
                  variables := (variables w)(var_name \<mapsto> ''0'')\<rparr>)"
    using assms(1) by (simp add: InStatement_execute_def getline_def)
  then show ?thesis by simp
qed

theorem InStatement_execute_no_number_witness:
  "Interpreter_execute [InStatement ''a'', OutStatement [''a'']]
     \<lparr>variables = Map.empty, stdin = [''abc''], stdout = [], stderr = []\<rparr>
   = Inr \<lparr>variables = [''a'' \<mapsto> ''0''], stdin = [], stdout = [''0''],
          stderr = [''Invalid input. Please enter an integer.'']\<rparr>"
  using InStatement_execute_no_number [of
      "\<lparr>variables = Map.empty, stdin = [''abc''], stdout = [], stderr = []\<rparr>"
      "''abc''" "[]" "''a''" "[OutStatement [''a'']]"]
  by (simp add: Interpreter_execute_def isspace_def isdigit_def)

text \<open>
  The line \<open>12abc\<close> is not an integer, and executing \<open>in << a\<close> on it writes no
  diagnostic and binds \<open>a\<close> to \<open>12\<close>, not to \<open>0\<close>.
\<close>

theorem InStatement_execute_trailing_text:
  "\<not> (case InStatement_execute ''a''
             \<lparr>variables = Map.empty, stdin = [''12abc''], stdout = [], stderr = []\<rparr> of
          Inl e \<Rightarrow> False
        | Inr w \<Rightarrow> stderr w = [''Invalid input. Please enter an integer.''] \<and>
            variables w ''a'' = Some ''0'')"
  by (simp add: InStatement_execute_def getline_def stoi_def decimal_def isspace_def
      isdigit_def to_string_def digits.simps)

lemma InStatement_execute_12abc:
  "InStatement_execute ''a''
     \<lparr>variables = Map.empty, stdin = [''12abc''], stdout = [], stderr = []\<rparr> =
   Inr \<lparr>variables = [''a'' \<mapsto> ''12''], stdin = [], stdout = [], stderr = []\<rparr>"
  by (simp add: InStatement_execute_def getline_def stoi_def decimal_def isspace_def
      isdigit_def to_string_def digits.simps)

text \<open>
  Claim C2 says that \<open>execute\<close> never fails. \<open>InStatement_execute\<close> handles
  \<^verbatim>\<open>std::invalid_argument\<close> only, and \<^verbatim>\<open>std::stoi\<close> also throws \<^verbatim>\<open>std::out_of_range\<close>:
  on the input line \<open>99999999999\<close>, a number too large for an \<^verbatim>\<open>int\<close>, the exception
  leaves \<open>Interpreter_execute\<close>, with no message and no fallback value.
\<close>

theorem Interpreter_execute_out_of_range:
  "Interpreter_execute [InStatement ''a'']
     \<lparr>variables = Map.empty, stdin = [''99999999999''], stdout = [], stderr = []\<rparr>
   = Inl out_of_range"
  by (simp add: Interpreter_execute_def InStatement_execute_def getline_def stoi_def
      decimal_def isspace_def isdigit_def)

section \<open>The parser on the example program\<close>

text \<open>
  Claim C3, as the code has it. The program text of the example has the twelve tokens
  below, and parsing them gives three statements (not two): \<open>OutStatement [hi]\<close>,
  \<open>InStatement a\<close>, \<open>OutStatement [a]\<close>, in that order.
\<close>

theorem tokenize_parse_example:
  "tokenize ''out >> \"hi\"; in << a; out >> a;'' =
     Some (Inr [\<lparr>type = OUT, value' = ''out''\<rparr>, \<lparr>type = GREATER_THAN, value' = ''>>''\<rparr>,
       \<lparr>type = STRING_LITERAL, value' = ''hi''\<rparr>, \<lparr>type = END_STATEMENT, value' = '';''\<rparr>,
       \<lparr>type = IN, value' = ''in''\<rparr>, \<lparr>type = LESS_THAN, value' = ''<<''\<rparr>,
       \<lparr>type = VAR_NAME, value' = ''a''\<rparr>, \<lparr>type = END_STATEMENT, value' = '';''\<rparr>,
       \<lparr>type = OUT, value' = ''out''\<rparr>, \<lparr>type = GREATER_THAN, value' = ''>>''\<rparr>,
       \<lparr>type = VAR_NAME, value' = ''a''\<rparr>, \<lparr>type = END_STATEMENT, value' = '';''\<rparr>]) \<and>
   parse [\<lparr>type = OUT, value' = ''out''\<rparr>, \<lparr>type = GREATER_THAN, value' = ''>>''\<rparr>,
       \<lparr>type = STRING_LITERAL, value' = ''hi''\<rparr>, \<lparr>type = END_STATEMENT, value' = '';''\<rparr>,
       \<lparr>type = IN, value' = ''in''\<rparr>, \<lparr>type = LESS_THAN, value' = ''<<''\<rparr>,
       \<lparr>type = VAR_NAME, value' = ''a''\<rparr>, \<lparr>type = END_STATEMENT, value' = '';''\<rparr>,
       \<lparr>type = OUT, value' = ''out''\<rparr>, \<lparr>type = GREATER_THAN, value' = ''>>''\<rparr>,
       \<lparr>type = VAR_NAME, value' = ''a''\<rparr>, \<lparr>type = END_STATEMENT, value' = '';''\<rparr>]
     = Inr [OutStatement [''hi''], InStatement ''a'', OutStatement [''a'']]"
  by code_simp

text \<open>The number of statements parsed from those tokens is not two.\<close>

theorem parse_example_not_two:
  "\<not> (case parse [\<lparr>type = OUT, value' = ''out''\<rparr>, \<lparr>type = GREATER_THAN, value' = ''>>''\<rparr>,
       \<lparr>type = STRING_LITERAL, value' = ''hi''\<rparr>, \<lparr>type = END_STATEMENT, value' = '';''\<rparr>,
       \<lparr>type = IN, value' = ''in''\<rparr>, \<lparr>type = LESS_THAN, value' = ''<<''\<rparr>,
       \<lparr>type = VAR_NAME, value' = ''a''\<rparr>, \<lparr>type = END_STATEMENT, value' = '';''\<rparr>,
       \<lparr>type = OUT, value' = ''out''\<rparr>, \<lparr>type = GREATER_THAN, value' = ''>>''\<rparr>,
       \<lparr>type = VAR_NAME, value' = ''a''\<rparr>, \<lparr>type = END_STATEMENT, value' = '';''\<rparr>] of
         Inl e \<Rightarrow> False | Inr statements \<Rightarrow> length statements = 2)"
  by code_simp

text \<open>
  Claim C4. When the cursor of the parser is on an \<open>IN\<close> token that is not followed by
  a \<open>LESS_THAN\<close> token and then a \<open>VAR_NAME\<close> token, parsing ends with the exception
  \<^verbatim>\<open>std::runtime_error("Invalid 'in' statement")\<close>, whatever the tokens are and whatever
  was parsed before; the statement is not skipped.
\<close>

theorem parse_in_invalid:
  assumes "current_index P < length (tokens P)"
    and "type (tokens P ! current_index P) = IN"
    and "\<not> (current_index P + 2 < length (tokens P) \<and>
             type (tokens P ! (current_index P + 1)) = LESS_THAN \<and>
             type (tokens P ! (current_index P + 2)) = VAR_NAME)"
  shows "parse_loop P statements = Inl (runtime_error ''Invalid 'in' statement'')"
proof -
  have "parse_in_statement P = Inl (runtime_error ''Invalid 'in' statement'')"
    using assms(3) by (auto simp: parse_in_statement_def Let_def)
  then show ?thesis
    using assms(1,2) by (subst parse_loop.simps) simp
qed

theorem parse_in_invalid_witness:
  "parse [\<lparr>type = IN, value' = ''in''\<rparr>, \<lparr>type = VAR_NAME, value' = ''a''\<rparr>]
     = Inl (runtime_error ''Invalid 'in' statement'')"
  using parse_in_invalid [of
      "Parser_new [\<lparr>type = IN, value' = ''in''\<rparr>, \<lparr>type = VAR_NAME, value' = ''a''\<rparr>]" "[]"]
  by (simp add: parse_def Parser_new_def)

section \<open>The lexer on lists\<close>

text \<open>
  What the lexer does depends only on the text from the cursor on. \<open>token_at s\<close> is
  the token at the start of the text \<open>s\<close> and the number of characters the lexer
  moves over to read it (leading white space included; one more than there are when a
  string literal is not closed, as \<^verbatim>\<open>pos++\<close> after the scan gives). Lemma
  \<open>next_token_token_at\<close> proves that \<open>next_token\<close> computes it.
\<close>

lemma scan_while_eq:
  "scan_while P L = L\<lparr>pos := pos L + length (takeWhile P (drop (pos L) (input L)))\<rparr>"
proof (induction P L rule: scan_while.induct)
  case (1 P L)
  show ?case
  proof (cases "pos L < length (input L) \<and> P (input L ! pos L)")
    case True
    then have d: "drop (pos L) (input L) = input L ! pos L # drop (Suc (pos L)) (input L)"
      by (simp add: Cons_nth_drop_Suc)
    show ?thesis
      using True "1.IH" by (subst scan_while.simps) (simp add: d)
  next
    case False
    then have "takeWhile P (drop (pos L) (input L)) = []"
      by (cases "pos L < length (input L)") (auto simp: takeWhile_eq_Nil_iff hd_drop_conv_nth)
    then show ?thesis
      using False by (subst scan_while.simps) auto
  qed
qed

definition token_at :: "string \<Rightarrow> Token \<times> nat" where
  "token_at s0 =
     (let w = length (takeWhile isspace s0); s = dropWhile isspace s0 in
      if s = [] then (\<lparr>type = END_STATEMENT, value' = ''''\<rparr>, w)
      else if take 3 s = ''out'' then (\<lparr>type = OUT, value' = ''out''\<rparr>, w + 3)
      else if take 2 s = ''>>'' then (\<lparr>type = GREATER_THAN, value' = ''>>''\<rparr>, w + 2)
      else if take 2 s = ''in'' then (\<lparr>type = IN, value' = ''in''\<rparr>, w + 2)
      else if take 2 s = ''<<'' then (\<lparr>type = LESS_THAN, value' = ''<<''\<rparr>, w + 2)
      else if take 4 s = ''stop'' then (\<lparr>type = STOP, value' = ''stop''\<rparr>, w + 4)
      else if take 3 s = ''int'' then (\<lparr>type = INT_KEYWORD, value' = ''int''\<rparr>, w + 3)
      else if hd s = CHR 0x22 then
        (\<lparr>type = STRING_LITERAL, value' = takeWhile (\<lambda>c. c \<noteq> CHR 0x22) (tl s)\<rparr>,
         w + 1 + length (takeWhile (\<lambda>c. c \<noteq> CHR 0x22) (tl s)) + 1)
      else if isalpha (hd s) then
        (\<lparr>type = VAR_NAME, value' = takeWhile isalnum s\<rparr>, w + length (takeWhile isalnum s))
      else if hd s = CHR '';'' then (\<lparr>type = END_STATEMENT, value' = '';''\<rparr>, w + 1)
      else (\<lparr>type = UNKNOWN, value' = ''''\<rparr>, w + 1))"

lemma next_token_token_at:
  "next_token L =
     (fst (token_at (drop (pos L) (input L))),
      L\<lparr>pos := pos L + snd (token_at (drop (pos L) (input L)))\<rparr>)"
proof -
  define i p s0 w s where "i = input L" and "p = pos L" and "s0 = drop p i"
    and "w = length (takeWhile isspace s0)" and "s = dropWhile isspace s0"
  define L1 where "L1 = skip_whitespace L"
  have L1: "L1 = L\<lparr>pos := p + w\<rparr>"
    by (simp add: L1_def skip_whitespace_def scan_while_eq w_def s0_def p_def i_def)
  have s: "drop (p + w) i = s"
    by (simp add: s_def w_def s0_def dropWhile_eq_drop add.commute)
  have e: "length i \<le> p + w \<longleftrightarrow> s = []"
    using s by (metis drop_eq_Nil)
  have h: "i ! (p + w) = hd s" if "s \<noteq> []"
    using that s e by (metis hd_drop_conv_nth not_le)
  have t: "drop (Suc (p + w)) i = tl s"
    using s by (metis drop_Suc tl_drop)
  have tk: "take (length (takeWhile Q xs)) xs = takeWhile Q xs" for Q and xs :: string
    by (simp add: takeWhile_eq_take [symmetric])
  have inp: "input L1 = i" and ps: "pos L1 = p + w"
    by (simp_all add: L1 i_def)
  have sub: "substr (input L1) (pos L1) n = take n s" for n
    by (simp add: substr_def inp ps s)
  have lhs: "next_token L =
      (if s = [] then (\<lparr>type = END_STATEMENT, value' = ''''\<rparr>, L1)
      else if take 3 s = ''out'' then (\<lparr>type = OUT, value' = ''out''\<rparr>, L1\<lparr>pos := p + w + 3\<rparr>)
      else if take 2 s = ''>>'' then (\<lparr>type = GREATER_THAN, value' = ''>>''\<rparr>, L1\<lparr>pos := p + w + 2\<rparr>)
      else if take 2 s = ''in'' then (\<lparr>type = IN, value' = ''in''\<rparr>, L1\<lparr>pos := p + w + 2\<rparr>)
      else if take 2 s = ''<<'' then (\<lparr>type = LESS_THAN, value' = ''<<''\<rparr>, L1\<lparr>pos := p + w + 2\<rparr>)
      else if take 4 s = ''stop'' then (\<lparr>type = STOP, value' = ''stop''\<rparr>, L1\<lparr>pos := p + w + 4\<rparr>)
      else if take 3 s = ''int'' then (\<lparr>type = INT_KEYWORD, value' = ''int''\<rparr>, L1\<lparr>pos := p + w + 3\<rparr>)
      else if hd s = CHR 0x22 then
        (\<lparr>type = STRING_LITERAL, value' = takeWhile (\<lambda>c. c \<noteq> CHR 0x22) (tl s)\<rparr>,
         L1\<lparr>pos := p + w + 1 + length (takeWhile (\<lambda>c. c \<noteq> CHR 0x22) (tl s)) + 1\<rparr>)
      else if isalpha (hd s) then
        (\<lparr>type = VAR_NAME, value' = takeWhile isalnum s\<rparr>, L1\<lparr>pos := p + w + length (takeWhile isalnum s)\<rparr>)
      else if hd s = CHR '';'' then (\<lparr>type = END_STATEMENT, value' = '';''\<rparr>, L1\<lparr>pos := p + w + 1\<rparr>)
      else (\<lparr>type = UNKNOWN, value' = ''''\<rparr>, L1\<lparr>pos := p + w + 1\<rparr>))"
  proof (cases "s = []")
    case True
    then show ?thesis
      unfolding next_token_def L1_def [symmetric] Let_def
      by (simp add: inp ps e)
  next
    case False
    have nl: "\<not> length i \<le> p + w" using False e by simp
    show ?thesis
      unfolding next_token_def L1_def [symmetric] Let_def sub
      apply (simp only: inp ps nl h [OF False] False if_False scan_while_eq Lexer.simps Lexer.update_convs)
      apply (simp add: L1 s t tk i_def [symmetric] substr_def)
      done
  qed
  show ?thesis
    unfolding lhs token_at_def Let_def s0_def [symmetric] i_def [symmetric] p_def [symmetric]
      w_def [symmetric] s_def [symmetric]
    by (simp add: L1 add.assoc)
qed

lemma token_at_advances: "s \<noteq> [] \<Longrightarrow> 0 < snd (token_at s)"
proof -
  assume "s \<noteq> []"
  then have "dropWhile isspace s = [] \<Longrightarrow> 0 < length (takeWhile isspace s)"
    by (cases s) (auto split: if_splits)
  moreover have "takeWhile isalnum t \<noteq> []" if "t \<noteq> []" "isalpha (hd t)" for t
    using that by (cases t) (auto simp: isalnum_def)
  ultimately show ?thesis
    by (simp add: token_at_def Let_def)
qed

lemma take3_int: "take 3 s = ''int'' \<Longrightarrow> take 2 s = ''in''"
proof -
  assume a: "take 3 s = ''int''"
  have "take 2 s = take 2 (take 3 s)" by simp
  also have "\<dots> = ''in''" by (simp add: a)
  finally show ?thesis .
qed

lemma token_at_not_INT_KEYWORD: "type (fst (token_at s)) \<noteq> INT_KEYWORD"
  using take3_int [of "dropWhile isspace s"] by (simp add: token_at_def Let_def)

lemma tokenize_Nil: "tokenize [] = Some (Inr [])"
  unfolding tokenize_def Lexer_new_def by (subst tokenize_loop.simps) simp

lemma map_result_append:
  "map_option (map_sum id ((@) acc)) (map_option (map_sum id ((#) tok)) r) =
     map_option (map_sum id ((@) (acc @ [tok]))) r"
  by (cases r; simp) (rename_tac x, case_tac x; simp)

lemma tokenize_loop_step:
  assumes "drop (pos L) (input L) = s" and "s \<noteq> []" and "token_at s = (tok, k)"
  shows "tokenize_loop L acc =
     (if type tok \<noteq> UNKNOWN then tokenize_loop (L\<lparr>pos := pos L + k\<rparr>) (acc @ [tok])
      else Some (Inl (runtime_error ''Unknown token encountered'')))"
proof -
  have "pos L < length (input L)"
    using assms(1,2) by auto
  moreover have "next_token L = (tok, L\<lparr>pos := pos L + k\<rparr>)"
    using assms(1,3) by (simp add: next_token_token_at)
  ultimately show ?thesis
    by (subst tokenize_loop.simps) simp
qed

lemma Cons_as_append: "((@) [tok]) = ((#) tok)"
  by auto

lemma tokenize_first:
  assumes "s \<noteq> []" and "token_at s = (tok, k)"
  shows "tokenize s =
     (if type tok \<noteq> UNKNOWN then tokenize_loop \<lparr>input = s, pos = k\<rparr> [tok]
      else Some (Inl (runtime_error ''Unknown token encountered'')))"
  unfolding tokenize_def Lexer_new_def
  using tokenize_loop_step [of "\<lparr>input = s, pos = 0\<rparr>" s tok k "[]"] assms by simp

lemma tokenize_loop_suffix:
  "tokenize_loop L acc = map_option (map_sum id ((@) acc)) (tokenize (drop (pos L) (input L)))"
proof (induction "length (drop (pos L) (input L))" arbitrary: L acc rule: less_induct)
  case less
  define s where "s = drop (pos L) (input L)"
  show ?case
  proof (cases "s = []")
    case True
    then have "\<not> pos L < length (input L)"
      by (simp add: s_def)
    then have "tokenize_loop L acc = Some (Inr acc)"
      by (subst tokenize_loop.simps) simp
    then show ?thesis
      using True by (simp add: s_def [symmetric] tokenize_Nil)
  next
    case False
    obtain tok k where tk: "token_at s = (tok, k)"
      by force
    have k: "0 < k"
      using token_at_advances [OF False] tk by simp
    have shorter: "length (drop k s) < length s"
      using k False by simp
    have "tokenize_loop (L\<lparr>pos := pos L + k\<rparr>) (acc @ [tok]) =
        map_option (map_sum id ((@) (acc @ [tok]))) (tokenize (drop k s))"
      using less [of "L\<lparr>pos := pos L + k\<rparr>" "acc @ [tok]"] shorter
      by (simp add: s_def add.commute)
    then have lhs: "tokenize_loop L acc =
        (if type tok \<noteq> UNKNOWN
         then map_option (map_sum id ((@) (acc @ [tok]))) (tokenize (drop k s))
         else Some (Inl (runtime_error ''Unknown token encountered'')))"
      using tokenize_loop_step [OF s_def [symmetric] False tk, of acc] by simp
    have "tokenize_loop \<lparr>input = s, pos = k\<rparr> [tok] =
        map_option (map_sum id ((@) [tok])) (tokenize (drop k s))"
      using less [of "\<lparr>input = s, pos = k\<rparr>" "[tok]"] shorter
      by (simp add: s_def)
    then have rhs: "tokenize s =
        (if type tok \<noteq> UNKNOWN
         then map_option (map_sum id ((#) tok)) (tokenize (drop k s))
         else Some (Inl (runtime_error ''Unknown token encountered'')))"
      by (simp add: tokenize_first [OF False tk] Cons_as_append)
    show ?thesis
      unfolding s_def [symmetric] lhs rhs by (simp add: map_result_append)
  qed
qed

lemma tokenize_step:
  assumes "s \<noteq> []" and "token_at s = (tok, k)"
  shows "tokenize s =
     (if type tok \<noteq> UNKNOWN then map_option (map_sum id ((#) tok)) (tokenize (drop k s))
      else Some (Inl (runtime_error ''Unknown token encountered'')))"
proof -
  have "tokenize_loop \<lparr>input = s, pos = k\<rparr> [tok] =
      map_option (map_sum id ((@) [tok])) (tokenize (drop k s))"
    by (simp add: tokenize_loop_suffix)
  then show ?thesis
    by (simp add: tokenize_first [OF assms] Cons_as_append)
qed

lemma tokenize_total: "\<exists>r. tokenize s = Some r"
proof (induction "length s" arbitrary: s rule: less_induct)
  case less
  show ?case
  proof (cases "s = []")
    case True
    then show ?thesis by (simp add: tokenize_Nil)
  next
    case False
    obtain tok k where tk: "token_at s = (tok, k)"
      by force
    have "length (drop k s) < length s"
      using token_at_advances [OF False] tk False by simp
    then obtain r where "tokenize (drop k s) = Some r"
      using less by blast
    then show ?thesis
      by (simp add: tokenize_step [OF False tk])
  qed
qed

lemma map_result_Inr:
  "map_option (map_sum id f) r = Some (Inr ts) \<longleftrightarrow> (\<exists>ts'. r = Some (Inr ts') \<and> ts = f ts')"
  by (cases r; simp) (rename_tac x, case_tac x; auto)

lemma tokenize_types:
  "tokenize s = Some (Inr ts) \<Longrightarrow> INT_KEYWORD \<notin> set (map type ts)"
proof (induction "length s" arbitrary: s ts rule: less_induct)
  case less
  show ?case
  proof (cases "s = []")
    case True
    then show ?thesis
      using less.prems by (simp add: tokenize_Nil)
  next
    case False
    obtain tok k where tk: "token_at s = (tok, k)"
      by force
    have shorter: "length (drop k s) < length s"
      using token_at_advances [OF False] tk False by simp
    from less.prems have "map_option (map_sum id ((#) tok)) (tokenize (drop k s)) = Some (Inr ts)"
      by (simp add: tokenize_step [OF False tk] split: if_splits)
    then obtain ts' where ts': "tokenize (drop k s) = Some (Inr ts')" "ts = tok # ts'"
      unfolding map_result_Inr by blast
    have "type tok \<noteq> INT_KEYWORD"
      using token_at_not_INT_KEYWORD [of s] tk by simp
    then show ?thesis
      using less.hyps [OF shorter ts'(1)] ts'(2) by simp
  qed
qed

text \<open>
  Claim C10. No token that \<open>tokenize\<close> returns has the type \<open>INT_KEYWORD\<close>, and
  \<open>next_token\<close> returns none in any state of the lexer: where the text at the cursor
  starts with \<open>int\<close> it starts with \<open>in\<close>, the rule for \<open>in\<close> comes first, and so the
  rule for \<open>int\<close> is never reached.
\<close>

theorem tokenize_no_INT_KEYWORD:
  "type (fst (next_token L)) \<noteq> INT_KEYWORD \<and>
   (tokenize s = Some (Inr ts) \<longrightarrow> INT_KEYWORD \<notin> set (map type ts))"
  using tokenize_types [of s ts]
  by (simp add: next_token_token_at token_at_not_INT_KEYWORD)

lemma tokenize_int_x:
  "tokenize ''int x'' =
     Some (Inr [\<lparr>type = IN, value' = ''in''\<rparr>, \<lparr>type = VAR_NAME, value' = ''t''\<rparr>,
                \<lparr>type = VAR_NAME, value' = ''x''\<rparr>])"
  by code_simp

theorem tokenize_no_INT_KEYWORD_witness:
  "type (fst (next_token (Lexer_new ''int x''))) \<noteq> INT_KEYWORD \<and>
   tokenize ''int x'' =
     Some (Inr [\<lparr>type = IN, value' = ''in''\<rparr>, \<lparr>type = VAR_NAME, value' = ''t''\<rparr>,
                \<lparr>type = VAR_NAME, value' = ''x''\<rparr>]) \<and>
   INT_KEYWORD \<notin> set (map type [\<lparr>type = IN, value' = ''in''\<rparr>, \<lparr>type = VAR_NAME, value' = ''t''\<rparr>,
                \<lparr>type = VAR_NAME, value' = ''x''\<rparr>])"
  using tokenize_no_INT_KEYWORD [of "Lexer_new ''int x''" "''int x''"
      "[\<lparr>type = IN, value' = ''in''\<rparr>, \<lparr>type = VAR_NAME, value' = ''t''\<rparr>,
                \<lparr>type = VAR_NAME, value' = ''x''\<rparr>]"] tokenize_int_x
  by simp

lemma token_at_open_quote:
  assumes "dropWhile isspace s = CHR 0x22 # text" and "CHR 0x22 \<notin> set text"
  shows "token_at s = (\<lparr>type = STRING_LITERAL, value' = text\<rparr>, Suc (length s))"
proof -
  have tw: "takeWhile (\<lambda>c. c \<noteq> CHR 0x22) text = text"
    using assms(2) by (simp add: takeWhile_eq_all_conv) metis
  have "length s = length (takeWhile isspace s) + length (dropWhile isspace s)"
    by (metis length_append takeWhile_dropWhile_id)
  then have len: "length s = length (takeWhile isspace s) + Suc (length text)"
    by (simp add: assms(1))
  show ?thesis
    by (simp add: token_at_def Let_def assms(1) tw len)
qed

lemma token_at_consumed:
  assumes "token_at s = (tok, k)" and "type tok \<noteq> STRING_LITERAL" and "type tok \<noteq> UNKNOWN"
  shows "k \<le> length s \<and> CHR 0x22 \<notin> set (take k s)"
proof -
  define w d where "w = takeWhile isspace s" and "d = dropWhile isspace s"
  have s: "s = w @ d"
    by (simp add: w_def d_def)
  have qw: "CHR 0x22 \<notin> set w"
    by (auto simp: w_def isspace_def dest: set_takeWhileD)
  have gen: "length w + n \<le> length s \<and> CHR 0x22 \<notin> set (take (length w + n) s)"
    if "n \<le> length d" "CHR 0x22 \<notin> set (take n d)" for n
    using that qw by (subst (1 2) s) simp
  have kw: "n \<le> length d \<and> CHR 0x22 \<notin> set (take n d)"
    if "take n d = u" "length u = n" "CHR 0x22 \<notin> set u" for n u
  proof -
    have "length (take n d) = n"
      unfolding that(1) by (rule that(2))
    then have "n \<le> length d"
      by simp
    then show ?thesis
      using that(1,3) by simp
  qed
  have fin: "k \<le> length s \<and> CHR 0x22 \<notin> set (take k s)"
    if "take n d = u" "length u = n" "CHR 0x22 \<notin> set u" "k = length w + n" for n u
    using gen [of n] kw [OF that(1-3)] that(4) by simp
  have ident: "length (takeWhile isalnum d) \<le> length d \<and>
      CHR 0x22 \<notin> set (take (length (takeWhile isalnum d)) d)"
    by (auto simp: takeWhile_eq_take [symmetric] length_takeWhile_le isalnum_def isalpha_def
        isdigit_def dest: set_takeWhileD)
  have semi: "1 \<le> length d \<and> CHR 0x22 \<notin> set (take 1 d)" if "d \<noteq> []" "hd d = CHR '';''"
    using that by (cases d) auto
  from assms have
    "(d = [] \<and> k = length w + 0) \<or> (take 3 d = ''out'' \<and> k = length w + 3) \<or>
     (take 2 d = ''>>'' \<and> k = length w + 2) \<or> (take 2 d = ''in'' \<and> k = length w + 2) \<or>
     (take 2 d = ''<<'' \<and> k = length w + 2) \<or> (take 4 d = ''stop'' \<and> k = length w + 4) \<or>
     (take 3 d = ''int'' \<and> k = length w + 3) \<or>
     (k = length w + length (takeWhile isalnum d)) \<or>
     (d \<noteq> [] \<and> hd d = CHR '';'' \<and> k = length w + 1)"
    by (auto simp: token_at_def Let_def w_def d_def split: if_splits)
  then show ?thesis
  proof (elim disjE conjE)
    assume "d = []" "k = length w + 0"
    then show ?thesis using gen [of 0] by simp
  next
    assume "take 3 d = ''out''" "k = length w + 3"
    then show ?thesis using fin [of 3 "''out''"] by simp
  next
    assume "take 2 d = ''>>''" "k = length w + 2"
    then show ?thesis using fin [of 2 "''>>''"] by simp
  next
    assume "take 2 d = ''in''" "k = length w + 2"
    then show ?thesis using fin [of 2 "''in''"] by simp
  next
    assume "take 2 d = ''<<''" "k = length w + 2"
    then show ?thesis using fin [of 2 "''<<''"] by simp
  next
    assume "take 4 d = ''stop''" "k = length w + 4"
    then show ?thesis using fin [of 4 "''stop''"] by simp
  next
    assume "take 3 d = ''int''" "k = length w + 3"
    then show ?thesis using fin [of 3 "''int''"] by simp
  next
    assume "k = length w + length (takeWhile isalnum d)"
    then show ?thesis using gen [of "length (takeWhile isalnum d)"] ident by simp
  next
    assume "d \<noteq> []" "hd d = CHR '';''" "k = length w + 1"
    then show ?thesis using gen [of 1] semi by simp
  qed
qed

lemma token_at_closed_quote:
  assumes "dropWhile isspace s = CHR 0x22 # v @ CHR 0x22 # rest" and "CHR 0x22 \<notin> set v"
  shows "token_at s = (\<lparr>type = STRING_LITERAL, value' = v\<rparr>,
           length (takeWhile isspace s) + length v + 2)"
    and "drop (length (takeWhile isspace s) + length v + 2) s = rest"
proof -
  have tw: "takeWhile (\<lambda>c. c \<noteq> CHR 0x22) (v @ CHR 0x22 # rest) = v"
    using assms(2) by (subst takeWhile_append2) auto
  show "token_at s = (\<lparr>type = STRING_LITERAL, value' = v\<rparr>,
           length (takeWhile isspace s) + length v + 2)"
    by (simp add: token_at_def Let_def assms(1) tw)
  have "s = takeWhile isspace s @ CHR 0x22 # v @ CHR 0x22 # rest"
    using assms(1) by (metis takeWhile_dropWhile_id)
  then have "drop (length (takeWhile isspace s) + length v + 2) s =
      drop (length (takeWhile isspace s) + length v + 2)
        (takeWhile isspace s @ CHR 0x22 # v @ CHR 0x22 # rest)"
    by simp
  also have "\<dots> = rest"
    by (simp add: add.assoc)
  finally show "drop (length (takeWhile isspace s) + length v + 2) s = rest" .
qed

lemma token_at_STRING_LITERAL:
  assumes "token_at s = (tok, k)" and "type tok = STRING_LITERAL"
  shows "\<exists>rest. dropWhile isspace s = CHR 0x22 # rest"
proof -
  from assms have "dropWhile isspace s \<noteq> [] \<and> hd (dropWhile isspace s) = CHR 0x22"
    by (auto simp: token_at_def Let_def split: if_splits)
  then show ?thesis
    by (cases "dropWhile isspace s") auto
qed

lemma after_last_quote_append:
  assumes "CHR 0x22 \<in> set b"
  shows "rev (takeWhile (\<lambda>c. c \<noteq> CHR 0x22) (rev (a @ b))) =
         rev (takeWhile (\<lambda>c. c \<noteq> CHR 0x22) (rev b))"
  using assms by (simp add: takeWhile_append1 [of "CHR 0x22"])

lemma after_last_quote_open:
  assumes "CHR 0x22 \<notin> set text"
  shows "rev (takeWhile (\<lambda>c. c \<noteq> CHR 0x22) (rev (a @ CHR 0x22 # text))) = text"
proof -
  have "takeWhile (\<lambda>c. c \<noteq> CHR 0x22) (rev text @ CHR 0x22 # rev a) = rev text"
    using assms by (subst takeWhile_append2) auto
  then show ?thesis
    by simp
qed

lemma tokenize_odd_quotes:
  assumes "odd (count_list s (CHR 0x22))" and "tokenize s = Some (Inr ts)"
  shows "ts \<noteq> [] \<and>
     last ts = \<lparr>type = STRING_LITERAL,
                value' = rev (takeWhile (\<lambda>c. c \<noteq> CHR 0x22) (rev s))\<rparr>"
  using assms
proof (induction "length s" arbitrary: s ts rule: less_induct)
  case less
  have ne: "s \<noteq> []"
    using less.prems(1) by auto
  obtain tok k where tk: "token_at s = (tok, k)"
    by force
  have shorter: "length (drop k s) < length s"
    using token_at_advances [OF ne] tk ne by simp
  from less.prems(2) have known: "type tok \<noteq> UNKNOWN"
    and "map_option (map_sum id ((#) tok)) (tokenize (drop k s)) = Some (Inr ts)"
    by (auto simp: tokenize_step [OF ne tk] split: if_splits)
  then obtain ts' where ts': "tokenize (drop k s) = Some (Inr ts')" "ts = tok # ts'"
    unfolding map_result_Inr by blast
  show ?case
  proof (cases "type tok = STRING_LITERAL")
    case False
    have c: "k \<le> length s \<and> CHR 0x22 \<notin> set (take k s)"
      using tk False known by (rule token_at_consumed)
    have s: "s = take k s @ drop k s"
      by simp
    have "count_list s (CHR 0x22) = count_list (drop k s) (CHR 0x22)"
      using c by (subst s) (simp del: append_take_drop_id)
    then have odd': "odd (count_list (drop k s) (CHR 0x22))"
      using less.prems(1) by simp
    then have mem: "CHR 0x22 \<in> set (drop k s)"
      by (metis count_notin even_zero)
    have IH: "ts' \<noteq> [] \<and> last ts' = \<lparr>type = STRING_LITERAL,
        value' = rev (takeWhile (\<lambda>c. c \<noteq> CHR 0x22) (rev (drop k s)))\<rparr>"
      using shorter odd' ts'(1) by (rule less.hyps)
    have "rev (takeWhile (\<lambda>c. c \<noteq> CHR 0x22) (rev s)) =
        rev (takeWhile (\<lambda>c. c \<noteq> CHR 0x22) (rev (drop k s)))"
      using after_last_quote_append [OF mem, of "take k s"] by simp
    then show ?thesis
      using IH ts'(2) by simp
  next
    case True
    then obtain rest where d: "dropWhile isspace s = CHR 0x22 # rest"
      using token_at_STRING_LITERAL [OF tk] by blast
    define w where "w = takeWhile isspace s"
    have s: "s = w @ CHR 0x22 # rest"
      using d by (metis w_def takeWhile_dropWhile_id)
    have qw: "CHR 0x22 \<notin> set w"
      by (auto simp: w_def isspace_def dest: set_takeWhileD)
    show ?thesis
    proof (cases "CHR 0x22 \<in> set rest")
      case False
      have "token_at s = (\<lparr>type = STRING_LITERAL, value' = rest\<rparr>, Suc (length s))"
        using d False by (rule token_at_open_quote)
      then have "tok = \<lparr>type = STRING_LITERAL, value' = rest\<rparr>" and "drop k s = []"
        using tk by auto
      then have "ts = [\<lparr>type = STRING_LITERAL, value' = rest\<rparr>]"
        using ts' by (simp add: tokenize_Nil)
      then show ?thesis
        using after_last_quote_open [OF False, of w] s by simp
    next
      case True
      define v r2 where "v = takeWhile (\<lambda>c. c \<noteq> CHR 0x22) rest"
        and "r2 = tl (dropWhile (\<lambda>c. c \<noteq> CHR 0x22) rest)"
      have "dropWhile (\<lambda>c. c \<noteq> CHR 0x22) rest \<noteq> []"
        using True by (simp add: dropWhile_eq_Nil_conv)
      moreover have "hd (dropWhile (\<lambda>c. c \<noteq> CHR 0x22) rest) = CHR 0x22"
        using calculation hd_dropWhile by blast
      ultimately have "dropWhile (\<lambda>c. c \<noteq> CHR 0x22) rest = CHR 0x22 # r2"
        by (cases "dropWhile (\<lambda>c. c \<noteq> CHR 0x22) rest") (auto simp: r2_def)
      then have rest: "rest = v @ CHR 0x22 # r2"
        by (metis v_def takeWhile_dropWhile_id)
      have qv: "CHR 0x22 \<notin> set v"
        by (auto simp: v_def dest: set_takeWhileD)
      have d': "dropWhile isspace s = CHR 0x22 # v @ CHR 0x22 # r2"
        using d rest by simp
      have "token_at s = (\<lparr>type = STRING_LITERAL, value' = v\<rparr>, length w + length v + 2)"
        and dr: "drop (length w + length v + 2) s = r2"
        using token_at_closed_quote [OF d' qv] by (simp_all add: w_def)
      then have k: "k = length w + length v + 2"
        using tk by simp
      have "count_list s (CHR 0x22) = 2 + count_list r2 (CHR 0x22)"
        using qw qv by (simp add: s rest)
      then have odd': "odd (count_list r2 (CHR 0x22))"
        using less.prems(1) by simp
      then have mem: "CHR 0x22 \<in> set r2"
        by (metis count_notin even_zero)
      have IH: "ts' \<noteq> [] \<and> last ts' = \<lparr>type = STRING_LITERAL,
          value' = rev (takeWhile (\<lambda>c. c \<noteq> CHR 0x22) (rev r2))\<rparr>"
      proof -
        have dk: "drop k s = r2"
          using dr k by simp
        have "length r2 < length s" and "tokenize r2 = Some (Inr ts')"
          using shorter ts'(1) unfolding dk by simp_all
        then show ?thesis
          using odd' less.hyps [of r2 ts'] by blast
      qed
      have "s = (w @ CHR 0x22 # v @ [CHR 0x22]) @ r2"
        by (simp add: s rest)
      then have "rev (takeWhile (\<lambda>c. c \<noteq> CHR 0x22) (rev s)) =
          rev (takeWhile (\<lambda>c. c \<noteq> CHR 0x22) (rev r2))"
        using after_last_quote_append [OF mem, of "w @ CHR 0x22 # v @ [CHR 0x22]"] by simp
      then show ?thesis
        using IH ts'(2) by simp
    qed
  qed
qed

text \<open>
  Claim C8. \<open>tokenize\<close> returns on every program text: its loop never has the value
  \<open>None\<close>, which would be a loop that does not end, and the three scanning loops inside
  \<open>next_token\<close> are total functions by their termination proofs. A double quote is not
  closed when the text is \<open>pre\<close>, the double quote, and a \<open>text\<close> with no double quote,
  where the double quotes of \<open>pre\<close> are even in number (they open and close the literals
  before). Whenever \<open>tokenize\<close> returns tokens on such a program text, which it does
  unless a character starts no token, the tokens are not empty and the last one is a
  string literal whose value is \<open>text\<close>, from after the quote to the end of the input.
  In the loop: when the cursor, after white space, is on a double quote and no double
  quote follows, the loop ends there with that one more token.
\<close>

theorem tokenize_terminates:
  "(\<exists>r. tokenize s = Some r) \<and>
   (even (count_list pre (CHR 0x22)) \<and> CHR 0x22 \<notin> set text \<and>
    tokenize (pre @ CHR 0x22 # text) = Some (Inr ts)
      \<longrightarrow> ts \<noteq> [] \<and> last ts = \<lparr>type = STRING_LITERAL, value' = text\<rparr>) \<and>
   (dropWhile isspace (drop (pos L) (input L)) = CHR 0x22 # text \<and> CHR 0x22 \<notin> set text
      \<longrightarrow> tokenize_loop L acc = Some (Inr (acc @ [\<lparr>type = STRING_LITERAL, value' = text\<rparr>])))"
proof -
  have loop: "tokenize_loop L acc = Some (Inr (acc @ [\<lparr>type = STRING_LITERAL, value' = text\<rparr>]))"
    if q: "dropWhile isspace (drop (pos L) (input L)) = CHR 0x22 # text" "CHR 0x22 \<notin> set text"
  proof -
    define s0 where "s0 = drop (pos L) (input L)"
    have ne: "s0 \<noteq> []"
      using q(1) by (auto simp: s0_def)
    have "token_at s0 = (\<lparr>type = STRING_LITERAL, value' = text\<rparr>, Suc (length s0))"
      using q token_at_open_quote unfolding s0_def by blast
    then have "tokenize s0 = Some (Inr [\<lparr>type = STRING_LITERAL, value' = text\<rparr>])"
      by (simp add: tokenize_step [OF ne] tokenize_Nil)
    then show ?thesis
      by (simp add: tokenize_loop_suffix s0_def)
  qed
  have whole: "ts \<noteq> [] \<and> last ts = \<lparr>type = STRING_LITERAL, value' = text\<rparr>"
    if "even (count_list pre (CHR 0x22))" "CHR 0x22 \<notin> set text"
      "tokenize (pre @ CHR 0x22 # text) = Some (Inr ts)"
  proof -
    have "odd (count_list (pre @ CHR 0x22 # text) (CHR 0x22))"
      using that(1,2) by simp
    then show ?thesis
      using tokenize_odd_quotes [OF _ that(3)] after_last_quote_open [OF that(2), of pre]
      by simp
  qed
  show ?thesis
    using tokenize_total [of s] loop whole by blast
qed

lemma tokenize_open_abc:
  "tokenize ''out >> \"abc'' =
     Some (Inr [\<lparr>type = OUT, value' = ''out''\<rparr>, \<lparr>type = GREATER_THAN, value' = ''>>''\<rparr>,
          \<lparr>type = STRING_LITERAL, value' = ''abc''\<rparr>])"
  by code_simp

theorem tokenize_terminates_witness:
  "tokenize ''out >> \"abc'' =
     Some (Inr [\<lparr>type = OUT, value' = ''out''\<rparr>, \<lparr>type = GREATER_THAN, value' = ''>>''\<rparr>,
          \<lparr>type = STRING_LITERAL, value' = ''abc''\<rparr>]) \<and>
   even (count_list ''out >> '' (CHR 0x22)) \<and> CHR 0x22 \<notin> set ''abc'' \<and>
   last [\<lparr>type = OUT, value' = ''out''\<rparr>, \<lparr>type = GREATER_THAN, value' = ''>>''\<rparr>,
          \<lparr>type = STRING_LITERAL, value' = ''abc''\<rparr>]
     = \<lparr>type = STRING_LITERAL, value' = ''abc''\<rparr> \<and>
   tokenize_loop \<lparr>input = ''out >> \"abc'', pos = 6\<rparr>
       [\<lparr>type = OUT, value' = ''out''\<rparr>, \<lparr>type = GREATER_THAN, value' = ''>>''\<rparr>]
     = Some (Inr [\<lparr>type = OUT, value' = ''out''\<rparr>, \<lparr>type = GREATER_THAN, value' = ''>>''\<rparr>,
          \<lparr>type = STRING_LITERAL, value' = ''abc''\<rparr>])"
  using tokenize_terminates [of "''out >> \"abc''" "''out >> ''" "''abc''"
      "[\<lparr>type = OUT, value' = ''out''\<rparr>, \<lparr>type = GREATER_THAN, value' = ''>>''\<rparr>,
          \<lparr>type = STRING_LITERAL, value' = ''abc''\<rparr>]"
      "\<lparr>input = ''out >> \"abc'', pos = 6\<rparr>"
      "[\<lparr>type = OUT, value' = ''out''\<rparr>, \<lparr>type = GREATER_THAN, value' = ''>>''\<rparr>]"]
    tokenize_open_abc
  by (simp add: isspace_def)

section \<open>Keywords at the start of identifiers\<close>

lemma take_append_kw:
  assumes "take n (v @ X) = kw" and "length kw = n" and "list_all isalnum kw"
    and "X = [] \<or> \<not> isalnum (hd X)"
  shows "take n v = kw"
proof (cases "n \<le> length v")
  case True
  then show ?thesis
    using assms(1) by simp
next
  case False
  then have kw: "kw = v @ take (n - length v) X"
    using assms(1) by simp
  then have "length (take (n - length v) X) = n - length v"
    using assms(2) by (metis add_diff_cancel_left' length_append)
  then have "X \<noteq> []" and "0 < n - length v"
    using False by auto
  then have "hd X \<in> set (take (n - length v) X)"
    by (cases X; cases "n - length v") auto
  then have "isalnum (hd X)"
    using assms(3) kw by (auto simp: list_all_iff)
  then show ?thesis
    using assms(4) \<open>X \<noteq> []\<close> by simp
qed

lemma take_prefix_kw:
  assumes "take n v = kw" and "length kw = n"
  shows "take n (v @ d) = kw"
proof -
  have "length (take n v) = n"
    using assms by simp
  then have "n \<le> length v"
    by simp
  then show ?thesis
    using assms(1) by simp
qed

lemma isalpha_facts:
  assumes "isalpha c"
  shows "\<not> isspace c" and "isalnum c" and "c \<noteq> CHR 0x22" and "c \<noteq> CHR ''>''"
    and "c \<noteq> CHR ''<''" and "c \<noteq> CHR '';''"
  using assms by (auto simp: isalpha_def isspace_def isalnum_def Let_def)

lemma take2_hd: "take 2 s = [a, b] \<Longrightarrow> hd s = a"
  by (cases s) (auto simp: numeral_2_eq_2)

lemma token_at_identifier:
  assumes "r \<noteq> []" and "isalpha (hd r)" and "list_all isalnum r"
    and "take 3 r \<noteq> ''out''" and "take 2 r \<noteq> ''in''" and "take 4 r \<noteq> ''stop''"
    and "X = [] \<or> \<not> isalnum (hd X)"
  shows "token_at (r @ X) = (\<lparr>type = VAR_NAME, value' = r\<rparr>, length r)"
proof -
  have hd: "hd (r @ X) = hd r"
    using assms(1) by simp
  have w: "takeWhile isspace (r @ X) = []" and d: "dropWhile isspace (r @ X) = r @ X"
    using assms(1) isalpha_facts(1) [OF assms(2)] by (cases r; simp)+
  have alnum: "list_all isalnum ''out''" "list_all isalnum ''in''" "list_all isalnum ''stop''"
    "list_all isalnum ''int''"
    by (simp_all add: isalnum_def isalpha_def isdigit_def)
  have k1: "take 3 (r @ X) \<noteq> ''out''"
    using take_append_kw [OF _ _ alnum(1) assms(7), of 3 r] assms(4) by auto
  have k2: "take 2 (r @ X) \<noteq> ''in''"
    using take_append_kw [OF _ _ alnum(2) assms(7), of 2 r] assms(5) by auto
  have k3: "take 4 (r @ X) \<noteq> ''stop''"
    using take_append_kw [OF _ _ alnum(3) assms(7), of 4 r] assms(6) by auto
  have k4: "take 3 (r @ X) \<noteq> ''int''"
    using k2 take3_int by blast
  have k5: "take 2 (r @ X) \<noteq> ''>>''" "take 2 (r @ X) \<noteq> ''<<''"
    using take2_hd [of "r @ X"] hd isalpha_facts(4,5) [OF assms(2)] by auto
  have tw: "takeWhile isalnum (r @ X) = r"
  proof -
    have "takeWhile isalnum X = []"
      using assms(7) by (cases X) auto
    then show ?thesis
      using assms(3) by (simp add: takeWhile_append2 list_all_iff)
  qed
  show ?thesis
    using assms(1,2) isalpha_facts(3) [OF assms(2)]
    by (simp add: token_at_def Let_def w d k1 k2 k3 k4 k5 tw hd del: take_append)
qed

lemma token_at_keyword:
  assumes "(kw, ty) = (''out'', OUT) \<or> (kw, ty) = (''in'', IN) \<or> (kw, ty) = (''stop'', STOP)"
    and "dropWhile isspace s = kw @ X"
  shows "token_at s = (\<lparr>type = ty, value' = kw\<rparr>, length (takeWhile isspace s) + length kw)"
proof -
  consider (out) "kw = ''out''" "ty = OUT" | (inn) "kw = ''in''" "ty = IN"
    | (stop) "kw = ''stop''" "ty = STOP"
    using assms(1) by auto
  then show ?thesis
  proof cases
    case out
    then show ?thesis
      using assms(2) by (simp add: token_at_def Let_def)
  next
    case inn
    then show ?thesis
      using assms(2) by (simp add: token_at_def Let_def)
  next
    case stop
    then show ?thesis
      using assms(2) by (simp add: token_at_def Let_def)
  qed
qed

text \<open>
  Claim C1, as the code has it. The keyword rules compare the start of the text with the
  keyword and do not look at what follows. When the text at the cursor (after white
  space) is one of the keywords \<open>out\<close>, \<open>in\<close> and \<open>stop\<close>, followed at once by a run
  \<open>r\<close> of letters and digits that starts with a letter, does not itself start with
  \<open>out\<close>, \<open>in\<close> or \<open>stop\<close>, and ends at the end of the text or before a character
  that is neither letter nor digit, then the lexer reads the keyword token, then the
  identifier token with the value \<open>r\<close>, and goes on with the rest of the text:
  \<open>output\<close> is the keyword \<open>out\<close> and the identifier \<open>put\<close> (the witness). Texts that
  start with \<open>int\<close> at the cursor are left aside here (see claim C10 for them).
\<close>

theorem tokenize_keyword_identifier:
  assumes "(kw, ty) = (''out'', OUT) \<or> (kw, ty) = (''in'', IN) \<or> (kw, ty) = (''stop'', STOP)"
    and "dropWhile isspace (drop (pos L) (input L)) = kw @ r @ rest"
    and "r \<noteq> []" and "isalpha (hd r)" and "list_all isalnum r"
    and "take 3 r \<noteq> ''out''" and "take 2 r \<noteq> ''in''" and "take 4 r \<noteq> ''stop''"
    and "rest = [] \<or> \<not> isalnum (hd rest)"
    and "take 3 (kw @ r) \<noteq> ''int''"
  shows "tokenize_loop L acc =
     map_option (map_sum id (\<lambda>ts. acc @ \<lparr>type = ty, value' = kw\<rparr> # \<lparr>type = VAR_NAME, value' = r\<rparr> # ts))
       (tokenize rest)"
proof -
  define s0 where "s0 = drop (pos L) (input L)"
  define w where "w = length (takeWhile isspace s0)"
  have kw_ne: "kw \<noteq> []" and ty: "ty \<noteq> UNKNOWN"
    using assms(1) by auto
  have s0: "s0 = takeWhile isspace s0 @ kw @ r @ rest"
    using assms(2) by (metis s0_def takeWhile_dropWhile_id)
  then have ne0: "s0 \<noteq> []"
    using kw_ne by auto
  have t1: "token_at s0 = (\<lparr>type = ty, value' = kw\<rparr>, w + length kw)"
    using token_at_keyword [OF assms(1), of s0 "r @ rest"] assms(2) by (simp add: s0_def w_def)
  have d1: "drop (w + length kw) s0 = r @ rest"
    by (subst s0) (simp add: w_def)
  have ne1: "r @ rest \<noteq> []"
    using assms(3) by simp
  have t2: "token_at (r @ rest) = (\<lparr>type = VAR_NAME, value' = r\<rparr>, length r)"
    using assms(3-9) by (rule token_at_identifier)
  have "tokenize (r @ rest) = map_option (map_sum id ((#) \<lparr>type = VAR_NAME, value' = r\<rparr>)) (tokenize rest)"
    by (simp add: tokenize_step [OF ne1 t2])
  then have "tokenize s0 =
      map_option (map_sum id (\<lambda>ts. \<lparr>type = ty, value' = kw\<rparr> # \<lparr>type = VAR_NAME, value' = r\<rparr> # ts))
        (tokenize rest)"
    using ty by (simp add: tokenize_step [OF ne0 t1] d1 option.map_comp sum.map_comp comp_def id_def)
  then show ?thesis
    by (simp add: tokenize_loop_suffix s0_def [symmetric] option.map_comp sum.map_comp comp_def id_def)
qed

theorem tokenize_keyword_identifier_witness:
  "tokenize ''output'' =
     Some (Inr [\<lparr>type = OUT, value' = ''out''\<rparr>, \<lparr>type = VAR_NAME, value' = ''put''\<rparr>])"
  using tokenize_keyword_identifier [of "''out''" OUT "Lexer_new ''output''" "''put''" "[]" "[]"]
  by (simp add: tokenize_def Lexer_new_def isspace_def isalpha_def isalnum_def isdigit_def
      tokenize_Nil [unfolded tokenize_def Lexer_new_def])

text \<open>
  The claim as it is written fails on two texts. \<open>integer\<close> is read as the keyword
  \<open>in\<close> and the identifier \<open>teger\<close>, not as \<open>int\<close> and \<open>eger\<close>. In \<open>out1\<close> an
  identifier starts with a keyword, and after the keyword the digit starts no token, so
  \<open>tokenize\<close> throws and returns no tokens at all.
\<close>

theorem tokenize_integer_out1:
  "tokenize ''integer'' =
     Some (Inr [\<lparr>type = IN, value' = ''in''\<rparr>, \<lparr>type = VAR_NAME, value' = ''teger''\<rparr>]) \<and>
   tokenize ''out1'' = Some (Inl (runtime_error ''Unknown token encountered''))"
  by code_simp

section \<open>Lexing the tokens' texts again\<close>

text \<open>
  The text of a token: its value, which for the keywords, the operators, the semicolon
  and an identifier is the text it was read from, and for a string literal, whose value
  is the text between the quotes, the value between two double quotes. The end token
  that \<open>next_token\<close> returns when only white space is left has the empty text.
\<close>

definition lexeme :: "Token \<Rightarrow> string" where
  "lexeme t =
     (if type t = STRING_LITERAL then [CHR 0x22] @ value' t @ [CHR 0x22] else value' t)"

lemma token_at_space: "token_at (CHR '' '' # s) = (fst (token_at s), Suc (snd (token_at s)))"
proof -
  have sp: "isspace (CHR '' '')"
    by (simp add: isspace_def)
  show ?thesis
    by (simp add: token_at_def Let_def sp)
qed

lemma takeWhile_identifier:
  assumes "s \<noteq> []" and "isalpha (hd s)"
    and "take 3 s \<noteq> ''out''" and "take 2 s \<noteq> ''in''" and "take 4 s \<noteq> ''stop''"
  defines "v \<equiv> takeWhile isalnum s"
  shows "v \<noteq> []" and "isalpha (hd v)" and "list_all isalnum v"
    and "take 3 v \<noteq> ''out''" and "take 2 v \<noteq> ''in''" and "take 4 v \<noteq> ''stop''"
proof -
  have s: "s = v @ dropWhile isalnum s"
    by (simp add: v_def)
  show "v \<noteq> []" and "isalpha (hd v)"
    using assms(1,2) isalpha_facts(2) [OF assms(2)] by (cases s; simp add: v_def)+
  show "list_all isalnum v"
    by (auto simp: v_def list_all_iff dest: set_takeWhileD)
  show "take 3 v \<noteq> ''out''"
    using take_prefix_kw [of 3 v "''out''" "dropWhile isalnum s"] s assms(3) by auto
  show "take 2 v \<noteq> ''in''"
    using take_prefix_kw [of 2 v "''in''" "dropWhile isalnum s"] s assms(4) by auto
  show "take 4 v \<noteq> ''stop''"
    using take_prefix_kw [of 4 v "''stop''" "dropWhile isalnum s"] s assms(5) by auto
qed

lemma token_at_cases:
  assumes "token_at s = (tok, k)"
  obtains
    (eof) "dropWhile isspace s = []" "tok = \<lparr>type = END_STATEMENT, value' = ''''\<rparr>" "k = length s"
  | (fixed) "tok \<in> set [\<lparr>type = OUT, value' = ''out''\<rparr>, \<lparr>type = GREATER_THAN, value' = ''>>''\<rparr>,
        \<lparr>type = IN, value' = ''in''\<rparr>, \<lparr>type = LESS_THAN, value' = ''<<''\<rparr>,
        \<lparr>type = STOP, value' = ''stop''\<rparr>, \<lparr>type = END_STATEMENT, value' = '';''\<rparr>]"
  | (literal) v where "tok = \<lparr>type = STRING_LITERAL, value' = v\<rparr>" "CHR 0x22 \<notin> set v"
  | (ident) v where "tok = \<lparr>type = VAR_NAME, value' = v\<rparr>" "v \<noteq> []" "isalpha (hd v)"
      "list_all isalnum v" "take 3 v \<noteq> ''out''" "take 2 v \<noteq> ''in''" "take 4 v \<noteq> ''stop''"
  | (unknown) "type tok = UNKNOWN"
proof -
  define d where "d = dropWhile isspace s"
  have len: "length s = length (takeWhile isspace s)" if "d = []"
    using that by (metis d_def append_Nil2 takeWhile_dropWhile_id)
  have q: "CHR 0x22 \<notin> set (takeWhile (\<lambda>c. c \<noteq> CHR 0x22) xs)" for xs
    by (auto dest: set_takeWhileD)
  show thesis
  proof (cases "d = []")
    case True
    then show ?thesis
      using assms len by (intro eof) (auto simp: token_at_def Let_def d_def)
  next
    case ne: False
    show ?thesis
    proof (cases "take 3 d = ''out'' \<or> take 2 d = ''>>'' \<or> take 2 d = ''in'' \<or> take 2 d = ''<<''
        \<or> take 4 d = ''stop''")
      case True
      then show ?thesis
        using assms ne by (intro fixed) (auto simp: token_at_def Let_def d_def [symmetric] split: if_splits)
    next
      case nk: False
      then have ni: "take 3 d \<noteq> ''int''"
        using take3_int by blast
      show ?thesis
      proof (cases "hd d = CHR 0x22")
        case True
        then show ?thesis
          using assms ne nk ni q by (intro literal) (auto simp: token_at_def Let_def d_def [symmetric] split: if_splits)
      next
        case nq: False
        show ?thesis
        proof (cases "isalpha (hd d)")
          case True
          have "tok = \<lparr>type = VAR_NAME, value' = takeWhile isalnum d\<rparr>"
            using assms ne nk ni nq True by (auto simp: token_at_def Let_def d_def [symmetric] split: if_splits)
          then show ?thesis
            using takeWhile_identifier [OF ne True] nk by (intro ident) auto
        next
          case False
          then show ?thesis
            using assms ne nk ni nq
            by (cases "hd d = CHR '';''")
              (auto simp: token_at_def Let_def d_def [symmetric] intro: fixed unknown split: if_splits)
        qed
      qed
    qed
  qed
qed

lemma token_at_fixed:
  "token_at (''out'' @ X) = (\<lparr>type = OUT, value' = ''out''\<rparr>, 3)"
  "token_at (''>>'' @ X) = (\<lparr>type = GREATER_THAN, value' = ''>>''\<rparr>, 2)"
  "token_at (''in'' @ X) = (\<lparr>type = IN, value' = ''in''\<rparr>, 2)"
  "token_at (''<<'' @ X) = (\<lparr>type = LESS_THAN, value' = ''<<''\<rparr>, 2)"
  "token_at (''stop'' @ X) = (\<lparr>type = STOP, value' = ''stop''\<rparr>, 4)"
  "token_at ('';'' @ X) = (\<lparr>type = END_STATEMENT, value' = '';''\<rparr>, 1)"
  by (simp_all add: token_at_def Let_def isspace_def isalpha_def)

lemma token_at_literal:
  assumes "CHR 0x22 \<notin> set v"
  shows "token_at (CHR 0x22 # v @ CHR 0x22 # X) = (\<lparr>type = STRING_LITERAL, value' = v\<rparr>, length v + 2)"
proof -
  have "takeWhile (\<lambda>c. c \<noteq> CHR 0x22) (v @ CHR 0x22 # X) = v"
    using assms by (subst takeWhile_append2) auto
  then show ?thesis
    by (simp add: token_at_def Let_def isspace_def)
qed

lemma token_at_lexeme:
  assumes "token_at s = (tok, k)" and "type tok \<noteq> UNKNOWN"
    and "X = [] \<or> hd X = CHR '' ''" and "lexeme tok = [] \<longrightarrow> X = []"
  shows "token_at (lexeme tok @ X) = (tok, length (lexeme tok))"
  using assms(1)
proof (cases rule: token_at_cases)
  case eof
  then have "lexeme tok @ X = []"
    using assms(4) by (simp add: lexeme_def)
  then show ?thesis
    using eof(2) by (simp add: token_at_def lexeme_def)
next
  case fixed
  then consider "tok = \<lparr>type = OUT, value' = ''out''\<rparr>"
    | "tok = \<lparr>type = GREATER_THAN, value' = ''>>''\<rparr>"
    | "tok = \<lparr>type = IN, value' = ''in''\<rparr>"
    | "tok = \<lparr>type = LESS_THAN, value' = ''<<''\<rparr>"
    | "tok = \<lparr>type = STOP, value' = ''stop''\<rparr>"
    | "tok = \<lparr>type = END_STATEMENT, value' = '';''\<rparr>"
    by auto
  then show ?thesis
    by cases (simp_all only: lexeme_def Token.simps TokenType.simps if_False token_at_fixed
        list.size length_Cons One_nat_def [symmetric], simp_all)
next
  case (literal v)
  then show ?thesis
    using token_at_literal [of v X] by (simp add: lexeme_def)
next
  case (ident v)
  have "X = [] \<or> \<not> isalnum (hd X)"
    using assms(3) by (auto simp: isalnum_def isalpha_def isdigit_def)
  then show ?thesis
    using token_at_identifier [OF ident(2-7), of X] ident(1) by (simp add: lexeme_def)
next
  case unknown
  then show ?thesis
    using assms(2) by simp
qed

lemma token_at_empty_lexeme:
  assumes "token_at s = (tok, k)" and "type tok \<noteq> UNKNOWN" and "lexeme tok = []"
  shows "drop k s = []"
  using assms(1)
proof (cases rule: token_at_cases)
  case eof
  then show ?thesis by simp
next
  case fixed
  then show ?thesis
    using assms(3) by (auto simp: lexeme_def)
next
  case (literal v)
  then show ?thesis
    using assms(3) by (simp add: lexeme_def)
next
  case (ident v)
  then show ?thesis
    using assms(3) by (simp add: lexeme_def)
next
  case unknown
  then show ?thesis
    using assms(2) by simp
qed

text \<open>
  Claim C7, as the code has it. The texts of the tokens cannot be joined with nothing
  between them: identifiers that white space separated would become one identifier.
  With one space before the text of each token, lexing the joined text gives the same
  tokens again, for every program text on which \<open>tokenize\<close> returns tokens.
\<close>

theorem tokenize_spaced_lexemes:
  assumes "tokenize s = Some (Inr ts)"
  shows "tokenize (concat (map (\<lambda>t. CHR '' '' # lexeme t) ts)) = Some (Inr ts)"
  using assms
proof (induction "length s" arbitrary: s ts rule: less_induct)
  case less
  show ?case
  proof (cases "s = []")
    case True
    then show ?thesis
      using less.prems by (auto simp: tokenize_Nil)
  next
    case False
    obtain tok k where tk: "token_at s = (tok, k)"
      by force
    have shorter: "length (drop k s) < length s"
      using token_at_advances [OF False] tk False by simp
    from less.prems have known: "type tok \<noteq> UNKNOWN"
      and "map_option (map_sum id ((#) tok)) (tokenize (drop k s)) = Some (Inr ts)"
      by (auto simp: tokenize_step [OF False tk] split: if_splits)
    then obtain ts' where ts': "tokenize (drop k s) = Some (Inr ts')" "ts = tok # ts'"
      unfolding map_result_Inr by blast
    define X where "X = concat (map (\<lambda>t. CHR '' '' # lexeme t) ts')"
    have IH: "tokenize X = Some (Inr ts')"
      unfolding X_def using shorter ts'(1) by (rule less.hyps)
    have X1: "X = [] \<or> hd X = CHR '' ''"
      by (cases ts') (simp_all add: X_def)
    have X2: "lexeme tok = [] \<longrightarrow> X = []"
    proof
      assume "lexeme tok = []"
      then have "drop k s = []"
        using tk known by (rule token_at_empty_lexeme [rotated 2])
      then have "ts' = []"
        using ts'(1) by (simp add: tokenize_Nil)
      then show "X = []"
        by (simp add: X_def)
    qed
    have "token_at (lexeme tok @ X) = (tok, length (lexeme tok))"
      using tk known X1 X2 by (rule token_at_lexeme)
    then have t: "token_at (CHR '' '' # lexeme tok @ X) = (tok, Suc (length (lexeme tok)))"
      by (simp add: token_at_space)
    have "tokenize (CHR '' '' # lexeme tok @ X) = Some (Inr (tok # ts'))"
      using known IH by (simp add: tokenize_step [OF _ t])
    then show ?thesis
      by (simp add: ts'(2) X_def)
  qed
qed

theorem tokenize_spaced_lexemes_witness:
  "tokenize (concat (map (\<lambda>t. CHR '' '' # lexeme t)
     [\<lparr>type = OUT, value' = ''out''\<rparr>, \<lparr>type = GREATER_THAN, value' = ''>>''\<rparr>,
      \<lparr>type = STRING_LITERAL, value' = ''hi''\<rparr>, \<lparr>type = VAR_NAME, value' = ''a''\<rparr>,
      \<lparr>type = VAR_NAME, value' = ''b''\<rparr>, \<lparr>type = END_STATEMENT, value' = '';''\<rparr>]))
   = Some (Inr [\<lparr>type = OUT, value' = ''out''\<rparr>, \<lparr>type = GREATER_THAN, value' = ''>>''\<rparr>,
      \<lparr>type = STRING_LITERAL, value' = ''hi''\<rparr>, \<lparr>type = VAR_NAME, value' = ''a''\<rparr>,
      \<lparr>type = VAR_NAME, value' = ''b''\<rparr>, \<lparr>type = END_STATEMENT, value' = '';''\<rparr>])"
proof -
  have "tokenize ''out>>\"hi\" a b;'' =
      Some (Inr [\<lparr>type = OUT, value' = ''out''\<rparr>, \<lparr>type = GREATER_THAN, value' = ''>>''\<rparr>,
      \<lparr>type = STRING_LITERAL, value' = ''hi''\<rparr>, \<lparr>type = VAR_NAME, value' = ''a''\<rparr>,
      \<lparr>type = VAR_NAME, value' = ''b''\<rparr>, \<lparr>type = END_STATEMENT, value' = '';''\<rparr>])"
    by code_simp
  then show ?thesis
    by (rule tokenize_spaced_lexemes)
qed

text \<open>
  The text \<open>a b\<close> has two identifier tokens; their texts joined are \<open>ab\<close>, which is
  one identifier token.
\<close>

theorem tokenize_joined_lexemes:
  "tokenize ''a b'' =
     Some (Inr [\<lparr>type = VAR_NAME, value' = ''a''\<rparr>, \<lparr>type = VAR_NAME, value' = ''b''\<rparr>]) \<and>
   tokenize (concat (map lexeme
     [\<lparr>type = VAR_NAME, value' = ''a''\<rparr>, \<lparr>type = VAR_NAME, value' = ''b''\<rparr>])) =
     Some (Inr [\<lparr>type = VAR_NAME, value' = ''ab''\<rparr>])"
  by code_simp

end
